theory Spec2Isabelle
  imports Main "HOL-Library.Word" "HOL-Library.Multiset" "HOL-Library.Product_Lexorder"
begin

unbundle bit_operations_syntax

section \<open>Common types\<close>

text \<open>
  Go's \<open>error\<close> values are modelled by their message. A \<open>time.Duration\<close> is a count of
  nanoseconds (an \<open>int64\<close> in Go; no arithmetic is done on it here, so it is an \<open>int\<close>).
\<close>

type_synonym go_error = string
type_synonym duration = int

section \<open>internal/dag/policy.go: parseTimeout\<close>

text \<open>
  \<open>time.ParseDuration\<close> belongs to the Go standard library, not to the repository: it is
  the parameter \<open>ParseDuration\<close>, returning either the error or the parsed duration.
\<close>

definition parseTimeout :: "(string \<Rightarrow> go_error + duration) \<Rightarrow> string \<Rightarrow> duration" where
  "parseTimeout ParseDuration timeout =
     (if timeout = '''' then 0
      else if timeout = ''infinity'' then - 1
      else (case ParseDuration timeout of
              Inl err \<Rightarrow> - 1
            | Inr d \<Rightarrow> d))"

section \<open>Kubernetes objects\<close>

text \<open>
  The fields of the Kubernetes API objects that the repository's code reads. Every object
  embeds an \<open>ObjectMeta\<close>; the \<open>Spec\<close> structs are flattened into the object
  (\<open>Spec.Backend\<close> is \<open>SpecBackend\<close>, and so on). A pointer that may be nil is an
  \<open>option\<close>, a Go map is a partial function, and a nil map reads like the empty one.
\<close>

datatype IntOrString = IntVal int | StrVal string

record ObjectMeta =
  Name :: string
  Namespace :: string
  Annotations :: "string \<rightharpoonup> string"

record IngressBackend =
  ServiceName :: string
  ServicePort :: IntOrString

record HTTPIngressPath =
  Path :: string
  Backend :: IngressBackend

record IngressTLS =
  Hosts :: "string list"
  SecretName :: string

record IngressRule =
  Host :: string
  HTTP :: "HTTPIngressPath list option"

record Ingress = ObjectMeta +
  SpecBackend :: "IngressBackend option"
  SpecTLS :: "IngressTLS list"
  SpecRules :: "IngressRule list"

record ServicePort =
  PortName :: string
  Port :: int

record Service = ObjectMeta +
  SpecPorts :: "ServicePort list"

record Secret = ObjectMeta +
  Data :: "string \<rightharpoonup> string"

record EndpointSubset =
  Addresses :: "string list"
  SubsetPorts :: "int list"

record Endpoints = ObjectMeta +
  Subsets :: "EndpointSubset list"

section \<open>internal/contour/translator.go: the Translator\<close>

text \<open>
  The translator keeps a cache of the objects it has seen and, on every event, recomputes
  parts of the xDS caches. The recomputation functions, the notification of watchers and
  the logger are not part of the sources at hand: a call to one of them is recorded, with
  its arguments, in the field \<open>calls\<close> of the translator, in the order the calls are made.
\<close>

type_synonym metadata = "string \<times> string" \<comment> \<open>name, namespace\<close>

record translatorCache =
  ingresses :: "metadata \<rightharpoonup> Ingress"
  endpoints :: "metadata \<rightharpoonup> Endpoints"
  services :: "metadata \<rightharpoonup> Service"
  secrets :: "metadata \<rightharpoonup> Secret"
  vhosts :: "string \<rightharpoonup> (metadata \<rightharpoonup> Ingress)"

datatype call =
    RecomputeClusterLoadAssignment "Endpoints option" "Endpoints option"
  | RecomputeService "Service option" "Service option"
  | RecomputeListeners "metadata \<rightharpoonup> Ingress" "metadata \<rightharpoonup> Secret"
  | RecomputeTLSListener "metadata \<rightharpoonup> Ingress" "metadata \<rightharpoonup> Secret"
  | Recomputevhost string "(metadata \<rightharpoonup> Ingress) option"
  | Notify
  | WriteCerts Secret
  | Infof string "string list"
  | Errorf string "string list"

record Translator =
  cache :: translatorCache
  calls :: "call list"

definition do_call :: "call \<Rightarrow> Translator \<Rightarrow> Translator" where
  "do_call c t = t\<lparr>calls := calls t @ [c]\<rparr>"

datatype object =
    ObjService Service
  | ObjEndpoints Endpoints
  | ObjIngress Ingress
  | ObjSecret Secret
  | ObjOther string

definition rule_host :: "IngressRule \<Rightarrow> string" where
  "rule_host rule = (if Host rule = [] then ''*'' else Host rule)"

definition vhosts_put :: "string \<Rightarrow> metadata \<Rightarrow> Ingress \<Rightarrow>
    (string \<rightharpoonup> (metadata \<rightharpoonup> Ingress)) \<Rightarrow> (string \<rightharpoonup> (metadata \<rightharpoonup> Ingress))" where
  "vhosts_put host md obj vh =
     vh(host \<mapsto> (case vh host of None \<Rightarrow> [md \<mapsto> obj] | Some m \<Rightarrow> m(md \<mapsto> obj)))"

definition cache_OnAdd :: "object \<Rightarrow> translatorCache \<Rightarrow> translatorCache" where
  "cache_OnAdd obj c =
     (case obj of
        ObjService svc \<Rightarrow> c\<lparr>services := (services c)((Name svc, Namespace svc) \<mapsto> svc)\<rparr>
      | ObjEndpoints e \<Rightarrow> c\<lparr>endpoints := (endpoints c)((Name e, Namespace e) \<mapsto> e)\<rparr>
      | ObjIngress i \<Rightarrow>
          (let md = (Name i, Namespace i);
               vh0 = vhosts c;
               vh1 = (if SpecBackend i \<noteq> None then vhosts_put ''*'' md i vh0 else vh0);
               vh2 = foldl (\<lambda>vh rule. vhosts_put (rule_host rule) md i vh) vh1 (SpecRules i)
           in c\<lparr>ingresses := (ingresses c)(md \<mapsto> i), vhosts := vh2\<rparr>)
      | ObjSecret s \<Rightarrow> c\<lparr>secrets := (secrets c)((Name s, Namespace s) \<mapsto> s)\<rparr>
      | ObjOther _ \<Rightarrow> c)"

definition addService :: "Service \<Rightarrow> Translator \<Rightarrow> Translator" where
  "addService svc t =
     (let t1 = (case endpoints (cache t) (Name svc, Namespace svc) of
                  None \<Rightarrow> do_call (Infof ''ignoring service update, cannot find matching endpoint %s/%s''
                                     [Namespace svc, Name svc]) t
                | Some ep \<Rightarrow> do_call (RecomputeClusterLoadAssignment None (Some ep)) t)
      in do_call (RecomputeService None (Some svc)) t1)"

definition addEndpoints :: "Endpoints \<Rightarrow> Translator \<Rightarrow> Translator" where
  "addEndpoints e t =
     (if length (Subsets e) < 1 then t
      else (case services (cache t) (Name e, Namespace e) of
              None \<Rightarrow> do_call (Infof ''ignoring endpoint update, cannot find matchin service %s/%s''
                                 [Namespace e, Name e]) t
            | Some _ \<Rightarrow> do_call (RecomputeClusterLoadAssignment None (Some e)) t))"

text \<open>
  \<open>addIngress\<close>: the deferred \<open>Notify\<close> runs when the function returns, after the
  loop over the rules. The ingress class is compared with the literal \<open>contour\<close>.
\<close>

definition addIngress :: "Ingress \<Rightarrow> Translator \<Rightarrow> Translator" where
  "addIngress i t =
     (let ann = Annotations i ''kubernetes.io/ingress.class'';
          ok = (ann \<noteq> None);
          class = (case ann of None \<Rightarrow> [] | Some c \<Rightarrow> c)
      in if ok \<and> class \<noteq> ''contour'' then t
         else
           (let t1 = do_call (RecomputeListeners (ingresses (cache t)) (secrets (cache t))) t;
                t2 = (if SpecBackend i \<noteq> None
                      then do_call (Recomputevhost ''*'' (vhosts (cache t1) ''*'')) t1 else t1);
                t3 = foldl (\<lambda>t' rule. do_call (Recomputevhost (rule_host rule)
                               (vhosts (cache t') (rule_host rule))) t') t2 (SpecRules i)
            in do_call Notify t3))"

definition addSecret :: "Secret \<Rightarrow> Translator \<Rightarrow> Translator" where
  "addSecret s t =
     (if Data s ''tls.crt'' = None \<or> Data s ''tls.key'' = None
      then do_call (Infof ''ignoring secret %s/%s'' [Namespace s, Name s]) t
      else (let t1 = do_call (Infof ''caching secret %s/%s'' [Namespace s, Name s]) t;
                t2 = do_call (WriteCerts s) t1
            in do_call (RecomputeTLSListener (ingresses (cache t2)) (secrets (cache t2))) t2))"

definition OnAdd :: "object \<Rightarrow> Translator \<Rightarrow> Translator" where
  "OnAdd obj t =
     (let t0 = t\<lparr>cache := cache_OnAdd obj (cache t)\<rparr>
      in case obj of
           ObjService svc \<Rightarrow> addService svc t0
         | ObjEndpoints e \<Rightarrow> addEndpoints e t0
         | ObjIngress i \<Rightarrow> addIngress i t0
         | ObjSecret s \<Rightarrow> addSecret s t0
         | ObjOther ty \<Rightarrow> do_call (Errorf ''OnAdd unexpected type %T: %#v'' [ty]) t0)"

text \<open>The zero value of the \<open>Translator\<close> struct: nil maps, nothing called yet.\<close>

definition Translator_zero :: Translator where
  "Translator_zero =
     \<lparr>cache = \<lparr>ingresses = Map.empty, endpoints = Map.empty, services = Map.empty,
               secrets = Map.empty, vhosts = Map.empty\<rparr>,
      calls = []\<rparr>"

section \<open>internal/status: HTTPRouteUpdate.Mutate\<close>















section \<open>internal/grpc: the xDS streams\<close>

text \<open>
  A \<open>types.Any\<close> and the discovery messages. The request's \<open>VersionInfo\<close> and
  \<open>TypeUrl\<close> are \<open>ReqVersionInfo\<close> and \<open>ReqTypeUrl\<close>; bytes are characters.
\<close>

record Any =
  AnyTypeUrl :: string
  Value :: string

record DiscoveryRequest =
  ReqVersionInfo :: string
  ResourceNames :: "string list"
  ReqTypeUrl :: string
  ResponseNonce :: string
  ErrorDetail :: "string option"

record DiscoveryResponse =
  VersionInfo :: string
  Resources :: "Any list"
  TypeUrl :: string
  Nonce :: string

text \<open>
  \<open>strconv.FormatInt(i, 10)\<close>: the decimal digits of \<open>i\<close>, most significant first, after a
  minus sign when \<open>i\<close> is negative.
\<close>

definition digit :: "nat \<Rightarrow> char" where
  "digit n = ''0123456789'' ! n"

fun digits :: "nat \<Rightarrow> string" where
  "digits n = (if n < 10 then [digit n] else digits (n div 10) @ [digit (n mod 10)])"

declare digits.simps [simp del]

definition FormatInt :: "int \<Rightarrow> string" where
  "FormatInt i = (if i < 0 then CHR ''-'' # digits (nat (- i)) else digits (nat i))"

subsection \<open>The stream over filtered resources\<close>

text \<open>
  A registered resource answers \<open>TypeURL()\<close>. Its \<open>Values\<close> depend on the cache at the time
  of the call, and \<open>Register\<close> together with the channel decides when the stream wakes up:
  both belong to the caches, outside the sources at hand, and reach the stream as events.
  \<open>Changed v values sendErr\<close>: the channel delivers the version \<open>v\<close> while \<open>Values\<close> is the
  function \<open>values\<close>, and \<open>st.Send\<close>, if it is called, returns \<open>sendErr\<close>.
  \<open>Done err\<close>: the stream's context is cancelled with \<open>ctx.Err() = err\<close>.
  \<open>proto.Marshal\<close> is the parameter \<open>marshal\<close>.
\<close>

record resource =
  TypeURL :: string

datatype 'm event =
    Changed int "(string \<Rightarrow> bool) \<Rightarrow> 'm list" "go_error option"
  | Done go_error

text \<open>
  How a stream stands after the events so far: it has returned an error, or it waits in
  \<open>select\<close>, registered with the version \<open>last\<close> (here \<open>lastv\<close>).
\<close>

datatype outcome = Returned go_error | Waiting int

definition toFilter :: "string list \<Rightarrow> string \<Rightarrow> bool" where
  "toFilter names = (if length names = 0 then (\<lambda>_. True) else (\<lambda>name. name \<in> set names))"

fun toAny_loop :: "('m \<Rightarrow> go_error + string) \<Rightarrow> string \<Rightarrow> 'm list \<Rightarrow> go_error + Any list" where
  "toAny_loop marshal url [] = Inr []"
| "toAny_loop marshal url (v # vs) =
     (case marshal v of
        Inl err \<Rightarrow> Inl err
      | Inr val \<Rightarrow>
          (case toAny_loop marshal url vs of
             Inl err \<Rightarrow> Inl err
           | Inr rest \<Rightarrow> Inr (\<lparr>AnyTypeUrl = url, Value = val\<rparr> # rest)))"

definition toAny :: "('m \<Rightarrow> go_error + string) \<Rightarrow> resource \<Rightarrow> ((string \<Rightarrow> bool) \<Rightarrow> 'm list) \<Rightarrow>
    (string \<Rightarrow> bool) \<Rightarrow> go_error + Any list" where
  "toAny marshal res values flt = toAny_loop marshal (TypeURL res) (values flt)"

text \<open>
  The loop \<open>streamwait\<close>. It has no exit but the \<open>return\<close>s, so a stream serves the one
  request it received first. The result is the list of the responses handed to
  \<open>st.Send\<close>, in order, and the outcome.
\<close>

fun streamwait :: "('m \<Rightarrow> go_error + string) \<Rightarrow> resource \<Rightarrow> DiscoveryRequest \<Rightarrow> int \<Rightarrow>
    'm event list \<Rightarrow> DiscoveryResponse list \<times> outcome" where
  "streamwait marshal r req lastv [] = ([], Waiting lastv)"
| "streamwait marshal r req lastv (Done err # evs) = ([], Returned err)"
| "streamwait marshal r req lastv (Changed v values sendErr # evs) =
     (case toAny marshal r values (toFilter (ResourceNames req)) of
        Inl err \<Rightarrow> ([], Returned err)
      | Inr resources \<Rightarrow>
          if length resources = 0 then streamwait marshal r req v evs
          else
            (let resp = \<lparr>VersionInfo = ''0'', Resources = resources,
                         TypeUrl = TypeURL r, Nonce = ''0''\<rparr>
             in case sendErr of
                  Some err \<Rightarrow> ([resp], Returned err)
                | None \<Rightarrow> (case streamwait marshal r req v evs of
                             (resps, out) \<Rightarrow> (resp # resps, out))))"

definition stream :: "('m \<Rightarrow> go_error + string) \<Rightarrow> (string \<rightharpoonup> resource) \<Rightarrow>
    go_error + DiscoveryRequest \<Rightarrow> 'm event list \<Rightarrow> DiscoveryResponse list \<times> outcome" where
  "stream marshal resources recv evs =
     (case recv of
        Inl err \<Rightarrow> ([], Returned err)
      | Inr req \<Rightarrow>
          (case resources (ReqTypeUrl req) of
             None \<Rightarrow> ([], Returned (''no resource registered for typeURL '' @ ReqTypeUrl req))
           | Some r \<Rightarrow> streamwait marshal r req 0 evs))"

subsection \<open>The earlier stream without filter: stream0\<close>

text \<open>
  A notifier answers \<open>TypeURL()\<close> and \<open>Resources()\<close>; the latter reads the cache, and its
  result comes with the event: \<open>Changed0 v res sendErr\<close> delivers the version \<open>v\<close> while
  \<open>n.Resources()\<close> returns \<open>res\<close>. The counter \<open>nonce\<close> is a Go \<open>int\<close>, 64 bits wide,
  whose increment wraps around.
\<close>

datatype event0 =
    Changed0 int "go_error + Any list" "go_error option"
  | Done0 go_error

definition fetch :: "string \<Rightarrow> go_error + Any list \<Rightarrow> int \<Rightarrow> int \<Rightarrow> go_error + DiscoveryResponse" where
  "fetch typeURL res version nonce =
     (case res of
        Inl err \<Rightarrow> Inl err
      | Inr resources \<Rightarrow>
          Inr \<lparr>VersionInfo = FormatInt version, Resources = resources,
               TypeUrl = typeURL, Nonce = FormatInt nonce\<rparr>)"

fun stream0_loop :: "string \<Rightarrow> int \<Rightarrow> 64 word \<Rightarrow> event0 list \<Rightarrow> DiscoveryResponse list \<times> outcome" where
  "stream0_loop typeURL lastv nonce [] = ([], Waiting lastv)"
| "stream0_loop typeURL lastv nonce (Done0 err # evs) = ([], Returned err)"
| "stream0_loop typeURL lastv nonce (Changed0 v res sendErr # evs) =
     (case fetch typeURL res v (sint nonce) of
        Inl err \<Rightarrow> ([], Returned err)
      | Inr out \<Rightarrow>
          (case sendErr of
             Some err \<Rightarrow> ([out], Returned err)
           | None \<Rightarrow> (case stream0_loop typeURL v (nonce + 1) evs of
                        (resps, outc) \<Rightarrow> (out # resps, outc))))"

definition stream0 :: "string \<Rightarrow> event0 list \<Rightarrow> DiscoveryResponse list \<times> outcome" where
  "stream0 typeURL evs = stream0_loop typeURL 0 0 evs"

text \<open>Test data: the cluster resource type and a request for every cluster.\<close>

definition clusterType :: string where
  "clusterType = ''type.googleapis.com/envoy.api.v2.Cluster''"

definition cds_request :: DiscoveryRequest where
  "cds_request = \<lparr>ReqVersionInfo = [], ResourceNames = [], ReqTypeUrl = clusterType,
     ResponseNonce = [], ErrorDetail = None\<rparr>"

definition registered :: "string \<rightharpoonup> resource" where
  "registered = [clusterType \<mapsto> \<lparr>TypeURL = clusterType\<rparr>]"

section \<open>internal/dag/dag.go: the DAG\<close>

text \<open>
  The IngressRoute object (\<open>ingressroutev1\<close>): the name and port of a service are
  \<open>SvcName\<close> and \<open>SvcPort\<close>, the secret of the TLS block is \<open>TLSSecretName\<close>.
\<close>

record IRService =
  SvcName :: string
  SvcPort :: int

record IRRoute =
  Match :: string
  Services :: "IRService list"

record IRTLS =
  TLSSecretName :: string

record IRVirtualHost =
  Fqdn :: string
  TLS :: "IRTLS option"

record IngressRoute = ObjectMeta +
  SpecVirtualHost :: "IRVirtualHost option"
  SpecRoutes :: "IRRoute list"

type_synonym meta = "string \<times> string" \<comment> \<open>name, namespace\<close>
type_synonym hostport = "string \<times> int" \<comment> \<open>host, port\<close>

text \<open>
  The vertices. A \<open>*dag.Service\<close> and a \<open>*dag.Secret\<close> wrap the Kubernetes object and
  nothing else: they are the object. A vertex is never written to once it is linked
  into the graph, so pointers to vertices are the vertices themselves. The \<open>Port\<close> of a
  virtual host is \<open>VPort\<close>.
\<close>

datatype route_object = OfIngress Ingress | OfIngressRoute IngressRoute

record Route =
  path :: string
  object :: route_object
  route_services :: "meta \<rightharpoonup> Service"
  backend :: "IngressBackend option"

record VirtualHost =
  VPort :: int
  host :: string
  routes :: "string \<rightharpoonup> Route"
  vh_secrets :: "meta \<rightharpoonup> Secret"

record dag =
  roots :: "VirtualHost list"

record DAG =
  dag_ingresses :: "meta \<rightharpoonup> Ingress"
  dag_ingressroutes :: "meta \<rightharpoonup> IngressRoute"
  dag_secrets :: "meta \<rightharpoonup> Secret"
  dag_services :: "meta \<rightharpoonup> Service"
  dag_dag :: "dag option"

datatype dag_object =
    DSecret Secret
  | DService Service
  | DIngress Ingress
  | DIngressRoute IngressRoute
  | DeletedFinalStateUnknown dag_object
  | DUninteresting string

definition Insert :: "DAG \<Rightarrow> dag_object \<Rightarrow> DAG" where
  "Insert d obj =
     (case obj of
        DSecret s \<Rightarrow> d\<lparr>dag_secrets := (dag_secrets d)((Name s, Namespace s) \<mapsto> s)\<rparr>
      | DService s \<Rightarrow> d\<lparr>dag_services := (dag_services d)((Name s, Namespace s) \<mapsto> s)\<rparr>
      | DIngress i \<Rightarrow> d\<lparr>dag_ingresses := (dag_ingresses d)((Name i, Namespace i) \<mapsto> i)\<rparr>
      | DIngressRoute ir \<Rightarrow>
          d\<lparr>dag_ingressroutes := (dag_ingressroutes d)((Name ir, Namespace ir) \<mapsto> ir)\<rparr>
      | _ \<Rightarrow> d)"

definition remove :: "DAG \<Rightarrow> dag_object \<Rightarrow> DAG" where
  "remove d obj =
     (case obj of
        DSecret s \<Rightarrow> d\<lparr>dag_secrets := (dag_secrets d)((Name s, Namespace s) := None)\<rparr>
      | DService s \<Rightarrow> d\<lparr>dag_services := (dag_services d)((Name s, Namespace s) := None)\<rparr>
      | DIngress i \<Rightarrow> d\<lparr>dag_ingresses := (dag_ingresses d)((Name i, Namespace i) := None)\<rparr>
      | DIngressRoute ir \<Rightarrow>
          d\<lparr>dag_ingressroutes := (dag_ingressroutes d)((Name ir, Namespace ir) := None)\<rparr>
      | _ \<Rightarrow> d)"

fun Remove :: "DAG \<Rightarrow> dag_object \<Rightarrow> DAG" where
  "Remove d (DeletedFinalStateUnknown obj) = Remove d obj"
| "Remove d obj = remove d obj"

text \<open>
  What \<open>recompute\<close> takes from outside the repository. The methods \<open>IntValue\<close> and
  \<open>String\<close> of a Kubernetes \<open>IntOrString\<close> (the latter is \<open>StringOf\<close>) and the function
  \<open>httpAllowed\<close> are parameters. Go leaves the order in which \<open>range\<close> visits a map
  unspecified: the order of each of the three loops over a map is a parameter too, a list
  of keys.
\<close>

record lib =
  IntValue :: "IntOrString \<Rightarrow> int"
  StringOf :: "IntOrString \<Rightarrow> string"
  httpAllowed :: "Ingress \<Rightarrow> bool"

record range_order =
  ingOrder :: "meta list"
  irOrder :: "meta list"
  vhOrder :: "hostport list"

definition addService_route :: "Route \<Rightarrow> Service \<Rightarrow> Route" where
  "addService_route r s = r\<lparr>route_services := (route_services r)((Name s, Namespace s) \<mapsto> s)\<rparr>"

definition addSecret_vhost :: "Secret \<Rightarrow> VirtualHost \<Rightarrow> VirtualHost" where
  "addSecret_vhost s v = v\<lparr>vh_secrets := (vh_secrets v)((Name s, Namespace s) \<mapsto> s)\<rparr>"

definition setRoute :: "Route \<Rightarrow> VirtualHost \<Rightarrow> VirtualHost" where
  "setRoute r v = v\<lparr>routes := (routes v)(path r \<mapsto> r)\<rparr>"

text \<open>
  \<open>vhost(host, port)\<close> returns the entry of \<open>_vhosts\<close>, creating it when it is missing, and
  the caller writes to it in place: \<open>vhost host port f\<close> is the map after the write \<open>f\<close>.
\<close>

definition vhost :: "string \<Rightarrow> int \<Rightarrow> (VirtualHost \<Rightarrow> VirtualHost) \<Rightarrow>
    (hostport \<rightharpoonup> VirtualHost) \<Rightarrow> (hostport \<rightharpoonup> VirtualHost)" where
  "vhost h p f vhs =
     (let vh = (case vhs (h, p) of
                  None \<Rightarrow> \<lparr>VPort = p, host = h, routes = Map.empty, vh_secrets = Map.empty\<rparr>
                | Some vh \<Rightarrow> vh)
      in vhs((h, p) \<mapsto> f vh))"

text \<open>
  The services of a route for an Ingress backend: the service is looked up in the cache
  (through the memoising \<open>service\<close>) and added once for every port that matches by number
  or by name.
\<close>

definition backend_route :: "lib \<Rightarrow> DAG \<Rightarrow> Ingress \<Rightarrow> string \<Rightarrow> IngressBackend \<Rightarrow> Route" where
  "backend_route l d ing pth b =
     (let r = \<lparr>path = pth, object = OfIngress ing, route_services = Map.empty, backend = Some b\<rparr>
      in case dag_services d (ServiceName b, Namespace ing) of
           None \<Rightarrow> r
         | Some s \<Rightarrow>
             foldl (\<lambda>r p. if IntValue l (ServicePort b) = Port p \<or>
                              StringOf l (ServicePort b) = PortName p
                           then addService_route r s else r)
                   r (SpecPorts s))"

definition ingress_default :: "lib \<Rightarrow> DAG \<Rightarrow> Ingress \<Rightarrow>
    (hostport \<rightharpoonup> VirtualHost) \<Rightarrow> (hostport \<rightharpoonup> VirtualHost)" where
  "ingress_default l d ing vhs =
     (case SpecBackend ing of
        None \<Rightarrow> vhs
      | Some b \<Rightarrow>
          (let r = backend_route l d ing ''/'' b
           in if httpAllowed l ing then vhost ''*'' 80 (setRoute r) vhs else vhs))"

definition ingress_tls :: "DAG \<Rightarrow> Ingress \<Rightarrow>
    (hostport \<rightharpoonup> VirtualHost) \<Rightarrow> (hostport \<rightharpoonup> VirtualHost)" where
  "ingress_tls d ing vhs =
     foldl (\<lambda>vhs tls.
              case dag_secrets d (SecretName tls, Namespace ing) of
                None \<Rightarrow> vhs
              | Some sec \<Rightarrow> foldl (\<lambda>vhs h. vhost h 443 (addSecret_vhost sec) vhs) vhs (Hosts tls))
           vhs (SpecTLS ing)"

definition ingress_path :: "lib \<Rightarrow> DAG \<Rightarrow> Ingress \<Rightarrow> string \<Rightarrow>
    (hostport \<rightharpoonup> VirtualHost) \<Rightarrow> HTTPIngressPath \<Rightarrow> (hostport \<rightharpoonup> VirtualHost)" where
  "ingress_path l d ing h vhs p =
     (let pth = (if Path p = [] then ''/'' else Path p);
          r = backend_route l d ing pth (Backend p);
          vhs1 = (if httpAllowed l ing then vhost h 80 (setRoute r) vhs else vhs)
      in if vhs1 (h, 443) \<noteq> None \<and> h \<noteq> ''*'' then vhost h 443 (setRoute r) vhs1 else vhs1)"

text \<open>
  The loop over the rules. \<open>rule.IngressRuleValue.HTTP\<close> is a pointer: the loop reads
  \<open>HTTP.Paths\<close> without a check, and a rule without an \<open>HTTP\<close> block stops the rebuild with
  a nil pointer panic.
\<close>

fun ingress_rules :: "lib \<Rightarrow> DAG \<Rightarrow> Ingress \<Rightarrow> IngressRule list \<Rightarrow>
    (hostport \<rightharpoonup> VirtualHost) \<Rightarrow> go_error + (hostport \<rightharpoonup> VirtualHost)" where
  "ingress_rules l d ing [] vhs = Inr vhs"
| "ingress_rules l d ing (rule # rules) vhs =
     (case HTTP rule of
        None \<Rightarrow> Inl ''invalid memory address or nil pointer dereference''
      | Some paths \<Rightarrow>
          ingress_rules l d ing rules
            (foldl (ingress_path l d ing (rule_host rule)) vhs paths))"

definition ingress_step :: "lib \<Rightarrow> DAG \<Rightarrow> Ingress \<Rightarrow>
    (hostport \<rightharpoonup> VirtualHost) \<Rightarrow> go_error + (hostport \<rightharpoonup> VirtualHost)" where
  "ingress_step l d ing vhs =
     ingress_rules l d ing (SpecRules ing) (ingress_tls d ing (ingress_default l d ing vhs))"

fun ingresses_loop :: "lib \<Rightarrow> DAG \<Rightarrow> Ingress list \<Rightarrow>
    (hostport \<rightharpoonup> VirtualHost) \<Rightarrow> go_error + (hostport \<rightharpoonup> VirtualHost)" where
  "ingresses_loop l d [] vhs = Inr vhs"
| "ingresses_loop l d (ing # ings) vhs =
     (case ingress_step l d ing vhs of
        Inl err \<Rightarrow> Inl err
      | Inr vhs' \<Rightarrow> ingresses_loop l d ings vhs')"

definition ingressroute_route :: "DAG \<Rightarrow> IngressRoute \<Rightarrow> IRRoute \<Rightarrow> Route" where
  "ingressroute_route d ir route =
     (let pth = (if Match route = [] then ''/'' else Match route);
          r = \<lparr>path = pth, object = OfIngressRoute ir, route_services = Map.empty, backend = None\<rparr>
      in foldl (\<lambda>r s.
                  case dag_services d (SvcName s, Namespace ir) of
                    None \<Rightarrow> r
                  | Some svc \<Rightarrow>
                      foldl (\<lambda>r p. if SvcPort s = Port p then addService_route r svc else r)
                            r (SpecPorts svc))
               r (Services route))"

definition ingressroute_step :: "DAG \<Rightarrow> (hostport \<rightharpoonup> VirtualHost) \<Rightarrow> IngressRoute \<Rightarrow>
    (hostport \<rightharpoonup> VirtualHost)" where
  "ingressroute_step d vhs ir =
     (case SpecVirtualHost ir of
        None \<Rightarrow> vhs
      | Some vh \<Rightarrow>
          (let h = Fqdn vh;
               vhs1 = (case TLS vh of
                         None \<Rightarrow> vhs
                       | Some tls \<Rightarrow>
                           (case dag_secrets d (TLSSecretName tls, Namespace ir) of
                              None \<Rightarrow> vhs
                            | Some sec \<Rightarrow> vhost h 443 (addSecret_vhost sec) vhs))
           in foldl (\<lambda>vhs route. vhost h 80 (setRoute (ingressroute_route d ir route)) vhs)
                    vhs1 (SpecRoutes ir)))"

text \<open>
  \<open>recompute_vhosts\<close> is \<open>recompute\<close> up to the map \<open>_vhosts\<close>; \<open>recompute\<close> appends its
  entries to the roots in the order of the last loop.
\<close>

definition recompute_vhosts :: "lib \<Rightarrow> range_order \<Rightarrow> DAG \<Rightarrow> go_error + (hostport \<rightharpoonup> VirtualHost)" where
  "recompute_vhosts l ro d =
     (case ingresses_loop l d (List.map_filter (dag_ingresses d) (ingOrder ro)) Map.empty of
        Inl err \<Rightarrow> Inl err
      | Inr vhs \<Rightarrow>
          Inr (foldl (ingressroute_step d) vhs
                 (List.map_filter (dag_ingressroutes d) (irOrder ro))))"

definition recompute :: "lib \<Rightarrow> range_order \<Rightarrow> DAG \<Rightarrow> go_error + dag" where
  "recompute l ro d =
     (case recompute_vhosts l ro d of
        Inl err \<Rightarrow> Inl err
      | Inr vhs \<Rightarrow> Inr \<lparr>roots = List.map_filter vhs (vhOrder ro)\<rparr>)"

definition Recompute :: "lib \<Rightarrow> range_order \<Rightarrow> DAG \<Rightarrow> go_error + DAG" where
  "Recompute l ro d =
     (case recompute l ro d of
        Inl err \<Rightarrow> Inl err
      | Inr g \<Rightarrow> Inr (d\<lparr>dag_dag := Some g\<rparr>))"

text \<open>
  An order is a run of the Go program on the cache \<open>d\<close> when each loop visits every key
  of its map once.
\<close>

definition range_of :: "'k list \<Rightarrow> ('k \<rightharpoonup> 'v) \<Rightarrow> bool" where
  "range_of ks m \<longleftrightarrow> distinct ks \<and> set ks = dom m"

definition run_of :: "lib \<Rightarrow> range_order \<Rightarrow> DAG \<Rightarrow> bool" where
  "run_of l ro d \<longleftrightarrow>
     range_of (ingOrder ro) (dag_ingresses d) \<and>
     range_of (irOrder ro) (dag_ingressroutes d) \<and>
     (case recompute_vhosts l ro d of
        Inl err \<Rightarrow> True
      | Inr vhs \<Rightarrow> range_of (vhOrder ro) vhs)"

text \<open>
  The cache maps are private to the \<open>DAG\<close> and written by \<open>Insert\<close> and \<open>remove\<close> only, which
  file every object under its own name and namespace. On such a cache the memo maps
  \<open>_services\<close> and \<open>_secrets\<close> of \<open>recompute\<close>, which are filled under the object's own
  name and read under the name looked up, return what the cache holds: the lookups above
  read the cache directly.
\<close>

definition well_keyed :: "DAG \<Rightarrow> bool" where
  "well_keyed d \<longleftrightarrow>
     (\<forall>m s. dag_services d m = Some s \<longrightarrow> (Name s, Namespace s) = m) \<and>
     (\<forall>m s. dag_secrets d m = Some s \<longrightarrow> (Name s, Namespace s) = m) \<and>
     (\<forall>m i. dag_ingresses d m = Some i \<longrightarrow> (Name i, Namespace i) = m) \<and>
     (\<forall>m i. dag_ingressroutes d m = Some i \<longrightarrow> (Name i, Namespace i) = m)"

text \<open>Every entry of \<open>_vhosts\<close> is filed under its own host and port.\<close>

definition keyed :: "(hostport \<rightharpoonup> VirtualHost) \<Rightarrow> bool" where
  "keyed vhs \<longleftrightarrow> (\<forall>hp v. vhs hp = Some v \<longrightarrow> (host v, VPort v) = hp)"

text \<open>An object of one of the four kinds the cache keeps, and whether its key is taken.\<close>

fun watched :: "dag_object \<Rightarrow> bool" where
  "watched (DSecret s) = True"
| "watched (DService s) = True"
| "watched (DIngress i) = True"
| "watched (DIngressRoute ir) = True"
| "watched _ = False"

fun present :: "DAG \<Rightarrow> dag_object \<Rightarrow> bool" where
  "present d (DSecret s) = (dag_secrets d (Name s, Namespace s) \<noteq> None)"
| "present d (DService s) = (dag_services d (Name s, Namespace s) \<noteq> None)"
| "present d (DIngress i) = (dag_ingresses d (Name i, Namespace i) \<noteq> None)"
| "present d (DIngressRoute ir) = (dag_ingressroutes d (Name ir, Namespace ir) \<noteq> None)"
| "present d _ = False"

text \<open>
  The library functions on the examples below, which use integer ports only:
  \<open>IntValue\<close> of an integer port is the integer, \<open>String\<close> its decimal form; HTTP is
  allowed unless the annotation \<open>kubernetes.io/ingress.allow-http\<close> says \<open>false\<close>.
\<close>

definition example_lib :: lib where
  "example_lib =
     \<lparr>IntValue = (\<lambda>x. case x of IntVal n \<Rightarrow> n | StrVal s \<Rightarrow> 0),
      StringOf = (\<lambda>x. case x of IntVal n \<Rightarrow> FormatInt n | StrVal s \<Rightarrow> s),
      httpAllowed = (\<lambda>i. Annotations i ''kubernetes.io/ingress.allow-http'' \<noteq> Some ''false'')\<rparr>"

text \<open>
  A TLS secret, a second secret of the same name with another certificate, and an Ingress
  that uses the secret for the host \<open>kuard.example.com\<close>.
\<close>

definition sec1 :: Secret where
  "sec1 = \<lparr>Name = ''secret'', Namespace = ''default'', Annotations = Map.empty,
     Data = [''tls.crt'' \<mapsto> ''certificate'', ''tls.key'' \<mapsto> ''key'']\<rparr>"

definition sec2 :: Secret where
  "sec2 = \<lparr>Name = ''secret'', Namespace = ''default'', Annotations = Map.empty,
     Data = [''tls.crt'' \<mapsto> ''renewed certificate'', ''tls.key'' \<mapsto> ''key'']\<rparr>"

definition ing_tls :: Ingress where
  "ing_tls = \<lparr>Name = ''kuard'', Namespace = ''default'', Annotations = Map.empty,
     SpecBackend = None,
     SpecTLS = [\<lparr>Hosts = [''kuard.example.com''], SecretName = ''secret''\<rparr>],
     SpecRules = []\<rparr>"

definition DAG_zero :: DAG where
  "DAG_zero = \<lparr>dag_ingresses = Map.empty, dag_ingressroutes = Map.empty,
     dag_secrets = Map.empty, dag_services = Map.empty, dag_dag = None\<rparr>"

definition dag_tls :: DAG where
  "dag_tls = Insert (Insert DAG_zero (DSecret sec1)) (DIngress ing_tls)"

definition order_tls :: range_order where
  "order_tls = \<lparr>ingOrder = [(''kuard'', ''default'')], irOrder = [],
     vhOrder = [(''kuard.example.com'', 443)]\<rparr>"

text \<open>
  Two Ingresses with a default backend each, \<open>a\<close> to the service \<open>kuard\<close> and \<open>b\<close> to the
  service \<open>httpbin\<close>, and an Ingress with a default backend and a rule for a host.
\<close>

definition ing_a :: Ingress where
  "ing_a = \<lparr>Name = ''a'', Namespace = ''default'', Annotations = Map.empty,
     SpecBackend = Some \<lparr>ServiceName = ''kuard'', ServicePort = IntVal 8080\<rparr>,
     SpecTLS = [], SpecRules = []\<rparr>"

definition ing_b :: Ingress where
  "ing_b = \<lparr>Name = ''b'', Namespace = ''default'', Annotations = Map.empty,
     SpecBackend = Some \<lparr>ServiceName = ''httpbin'', ServicePort = IntVal 80\<rparr>,
     SpecTLS = [], SpecRules = []\<rparr>"

definition ing_c :: Ingress where
  "ing_c = \<lparr>Name = ''c'', Namespace = ''default'', Annotations = Map.empty,
     SpecBackend = Some \<lparr>ServiceName = ''kuard'', ServicePort = IntVal 8080\<rparr>,
     SpecTLS = [],
     SpecRules = [\<lparr>Host = ''kuard.example.com'',
                   HTTP = Some [\<lparr>Path = ''/'',
                      Backend = \<lparr>ServiceName = ''kuard'', ServicePort = IntVal 8080\<rparr>\<rparr>]\<rparr>]\<rparr>"

definition dag_ab :: DAG where
  "dag_ab = Insert (Insert DAG_zero (DIngress ing_a)) (DIngress ing_b)"

definition dag_c :: DAG where
  "dag_c = Insert DAG_zero (DIngress ing_c)"

definition order_ab :: range_order where
  "order_ab = \<lparr>ingOrder = [(''a'', ''default''), (''b'', ''default'')], irOrder = [],
     vhOrder = [(''*'', 80)]\<rparr>"

definition order_ba :: range_order where
  "order_ba = \<lparr>ingOrder = [(''b'', ''default''), (''a'', ''default'')], irOrder = [],
     vhOrder = [(''*'', 80)]\<rparr>"

definition order_c1 :: range_order where
  "order_c1 = \<lparr>ingOrder = [(''c'', ''default'')], irOrder = [],
     vhOrder = [(''*'', 80), (''kuard.example.com'', 80)]\<rparr>"

definition order_c2 :: range_order where
  "order_c2 = \<lparr>ingOrder = [(''c'', ''default'')], irOrder = [],
     vhOrder = [(''kuard.example.com'', 80), (''*'', 80)]\<rparr>"

section \<open>internal/sorter: the order of routes\<close>

















section \<open>internal/contour/translator.go: hashname\<close>

subsection \<open>SHA-256 and its hexadecimal form\<close>



















subsection \<open>hashname and truncate\<close>








section \<open>Theorems\<close>

subsection \<open>parseTimeout\<close>

text \<open>
  C10. \<open>parseTimeout\<close> is a total function from strings to durations, with no error
  component in its result. It returns 0 for the empty string, -1 for the literal
  \<open>infinity\<close>, and -1 for every other string that \<open>time.ParseDuration\<close> rejects; a
  string that parses is returned as parsed.
\<close>

theorem parseTimeout_total:
  "parseTimeout pd '''' = 0 \<and>
   parseTimeout pd ''infinity'' = - 1 \<and>
   (\<forall>s e. s \<noteq> '''' \<longrightarrow> pd s = Inl e \<longrightarrow> parseTimeout pd s = - 1) \<and>
   (\<forall>s d. s \<noteq> '''' \<longrightarrow> s \<noteq> ''infinity'' \<longrightarrow> pd s = Inr d \<longrightarrow> parseTimeout pd s = d)"
  by (auto simp add: parseTimeout_def)

theorem parseTimeout_total_witness:
  "parseTimeout (\<lambda>s. if s = ''90s'' then Inr 90000000000 else Inl ''time: invalid duration'') ''bogus'' = - 1 \<and>
   parseTimeout (\<lambda>s. if s = ''90s'' then Inr 90000000000 else Inl ''time: invalid duration'') ''90s'' = 90000000000"
proof -
  let ?pd = "\<lambda>s. if s = ''90s'' then Inr (90000000000 :: int) else Inl ''time: invalid duration''"
  have a: "''bogus'' \<noteq> ''''" and b: "?pd ''bogus'' = Inl ''time: invalid duration''"
    and c: "''90s'' \<noteq> ''''" and d: "''90s'' \<noteq> ''infinity''" and e: "?pd ''90s'' = Inr 90000000000"
    by simp_all
  from parseTimeout_total [of ?pd] a b c d e show ?thesis by blast
qed

subsection \<open>The Translator\<close>

lemma cache_do_call: "cache (do_call c t) = cache t"
  by (simp add: do_call_def)



text \<open>
  C9. An Endpoints object with an empty subset list is ignored on add: \<open>addEndpoints\<close>
  returns the translator as it was, and the whole \<open>OnAdd\<close> event records no call (no
  recomputation of a ClusterLoadAssignment, no notification, not even a log line); only
  the translator's own object cache has stored the object.
\<close>

theorem addEndpoints_empty_subsets_ignored:
  "Subsets e = [] \<Longrightarrow> addEndpoints e t = t \<and> calls (OnAdd (ObjEndpoints e) t) = calls t"
  by (simp add: addEndpoints_def OnAdd_def)

theorem addEndpoints_empty_subsets_ignored_witness:
  "Subsets \<lparr>Name = ''kuard'', Namespace = ''default'', Annotations = Map.empty, Subsets = []\<rparr> = [] \<and>
   addEndpoints \<lparr>Name = ''kuard'', Namespace = ''default'', Annotations = Map.empty, Subsets = []\<rparr>
      Translator_zero = Translator_zero \<and>
   calls (OnAdd (ObjEndpoints \<lparr>Name = ''kuard'', Namespace = ''default'', Annotations = Map.empty,
      Subsets = []\<rparr>) Translator_zero) = []"
  using addEndpoints_empty_subsets_ignored
    [of "\<lparr>Name = ''kuard'', Namespace = ''default'', Annotations = Map.empty, Subsets = []\<rparr>"
        Translator_zero]
  by (simp add: Translator_zero_def)



subsection \<open>The status mutator\<close>










subsection \<open>The xDS streams\<close>

lemma streamwait_responses:
  "resp \<in> set (fst (streamwait marshal r req lastv evs)) \<Longrightarrow>
   Resources resp \<noteq> [] \<and> VersionInfo resp = ''0'' \<and> Nonce resp = ''0''"
proof (induction marshal r req lastv evs rule: streamwait.induct)
  case (1 marshal r req lastv)
  then show ?case by simp
next
  case (2 marshal r req lastv err evs)
  then show ?case by simp
next
  case (3 marshal r req lastv v vals sendErr evs)
  show ?case
  proof (cases "toAny marshal r vals (toFilter (ResourceNames req))")
    case (Inl err)
    with 3 show ?thesis by simp
  next
    case (Inr resources)
    show ?thesis
    proof (cases "length resources = 0")
      case True
      with 3 Inr show ?thesis by simp
    next
      case False
      with 3 Inr show ?thesis
        by (cases sendErr) (auto simp: Let_def split: prod.splits)
    qed
  qed
qed

lemma stream_responses:
  "resp \<in> set (fst (stream marshal resources recv evs)) \<Longrightarrow>
   Resources resp \<noteq> [] \<and> VersionInfo resp = ''0'' \<and> Nonce resp = ''0''"
  by (auto simp: stream_def split: sum.splits option.splits dest: streamwait_responses)

lemma stream0_loop_responses:
  "k < length (fst (stream0_loop url lastv n evs)) \<Longrightarrow>
   \<exists>v rs se. evs ! k = Changed0 v (Inr rs) se \<and>
     fst (stream0_loop url lastv n evs) ! k =
       \<lparr>VersionInfo = FormatInt v, Resources = rs, TypeUrl = url,
        Nonce = FormatInt (sint (n + word_of_nat k))\<rparr>"
proof (induction url lastv n evs arbitrary: k rule: stream0_loop.induct)
  case (1 typeURL lastv nonce)
  then show ?case by simp
next
  case (2 typeURL lastv nonce err evs)
  then show ?case by simp
next
  case (3 typeURL lastv nonce v res sendErr evs)
  show ?case
  proof (cases res)
    case (Inl err)
    with 3 show ?thesis by (simp add: fetch_def)
  next
    case (Inr rs)
    let ?out = "\<lparr>VersionInfo = FormatInt v, Resources = rs, TypeUrl = typeURL,
                 Nonce = FormatInt (sint nonce)\<rparr>"
    have f: "fetch typeURL res v (sint nonce) = Inr ?out"
      by (simp add: fetch_def Inr)
    show ?thesis
    proof (cases sendErr)
      case (Some err)
      with 3 f Inr show ?thesis by simp
    next
      case None
      show ?thesis
      proof (cases k)
        case 0
        with f None Inr show ?thesis by (simp split: prod.splits)
      next
        case (Suc j)
        with "3.prems" f None have j: "j < length (fst (stream0_loop typeURL v (nonce + 1) evs))"
          by (simp split: prod.splits)
        from "3.IH" [OF f None j] obtain va rsa se where
          e: "evs ! j = Changed0 va (Inr rsa) se" and
          r: "fst (stream0_loop typeURL v (nonce + 1) evs) ! j =
                \<lparr>VersionInfo = FormatInt va, Resources = rsa, TypeUrl = typeURL,
                 Nonce = FormatInt (sint (nonce + 1 + word_of_nat j))\<rparr>" by blast
        have "fst (stream0_loop typeURL lastv nonce (Changed0 v res sendErr # evs)) ! k =
              fst (stream0_loop typeURL v (nonce + 1) evs) ! j"
          using f None Suc by (simp split: prod.splits)
        with e r Suc show ?thesis by (simp add: add.assoc)
      qed
    qed
  qed
qed

lemma digit_inj: "m < 10 \<Longrightarrow> n < 10 \<Longrightarrow> digit m = digit n \<Longrightarrow> m = n"
proof -
  assume a: "m < 10" "n < 10" "digit m = digit n"
  have d: "distinct ''0123456789''" by simp
  from a nth_eq_iff_index_eq [OF d, of m n] show ?thesis by (simp add: digit_def)
qed

lemma digit_not_minus: "n < 10 \<Longrightarrow> digit n \<noteq> CHR ''-''"
proof -
  assume "n < 10"
  then have "digit n \<in> set ''0123456789''" unfolding digit_def by (intro nth_mem) simp
  then show ?thesis by auto
qed

lemma digits_not_Nil: "digits n \<noteq> []"
  by (subst digits.simps) simp

lemma digits_no_minus: "CHR ''-'' \<notin> set (digits n)"
proof (induction n rule: digits.induct)
  case (1 n)
  show ?case
  proof (cases "n < 10")
    case True
    then show ?thesis using digit_not_minus [of n] by (subst digits.simps) auto
  next
    case False
    with 1 have "CHR ''-'' \<notin> set (digits (n div 10))" by simp
    moreover have "digit (n mod 10) \<noteq> CHR ''-''" by (rule digit_not_minus) simp
    ultimately show ?thesis using False by (subst digits.simps) (auto simp del: digits.simps)
  qed
qed

lemma digits_length_ge2: "10 \<le> n \<Longrightarrow> 2 \<le> length (digits n)"
proof -
  assume "10 \<le> n"
  then have "digits n = digits (n div 10) @ [digit (n mod 10)]" by (subst digits.simps) simp
  moreover have "1 \<le> length (digits (n div 10))"
    using digits_not_Nil [of "n div 10"] by (cases "digits (n div 10)") simp_all
  ultimately show ?thesis by simp
qed

lemma digits_inj: "digits m = digits n \<Longrightarrow> m = n"
proof (induction m arbitrary: n rule: digits.induct)
  case (1 m)
  show ?case
  proof (cases "m < 10")
    case True
    then have dm: "digits m = [digit m]" by (subst digits.simps) simp
    show ?thesis
    proof (cases "n < 10")
      case n: True
      then have "digits n = [digit n]" by (subst digits.simps) simp
      with dm "1.prems" True n show ?thesis by (auto dest: digit_inj)
    next
      case False
      then have "2 \<le> length (digits n)" by (intro digits_length_ge2) simp
      with dm "1.prems" show ?thesis by simp
    qed
  next
    case False
    then have dm: "digits m = digits (m div 10) @ [digit (m mod 10)]"
      by (subst digits.simps) simp
    show ?thesis
    proof (cases "n < 10")
      case True
      then have "digits n = [digit n]" by (subst digits.simps) simp
      moreover from False have "2 \<le> length (digits m)" by (intro digits_length_ge2) simp
      ultimately show ?thesis using "1.prems" by simp
    next
      case n: False
      then have dn: "digits n = digits (n div 10) @ [digit (n mod 10)]"
        by (subst digits.simps) simp
      from "1.prems" dm dn have e: "digits (m div 10) = digits (n div 10)"
        and d: "digit (m mod 10) = digit (n mod 10)" by simp_all
      from "1.IH" [OF False e] have "m div 10 = n div 10" .
      moreover from d have "m mod 10 = n mod 10" by (intro digit_inj) simp_all
      ultimately show ?thesis by (metis div_mult_mod_eq)
    qed
  qed
qed

lemma FormatInt_inj: "FormatInt i = FormatInt j \<Longrightarrow> i = j"
proof -
  assume a: "FormatInt i = FormatInt j"
  have hd_neg: "hd (FormatInt x) = CHR ''-''" if "x < 0" for x
    using that by (simp add: FormatInt_def)
  have hd_pos: "hd (FormatInt x) \<noteq> CHR ''-''" if "\<not> x < 0" for x
  proof -
    have "hd (digits (nat x)) \<in> set (digits (nat x))" by (simp add: digits_not_Nil)
    with digits_no_minus [of "nat x"] that show ?thesis by (auto simp: FormatInt_def)
  qed
  show ?thesis
  proof (cases "i < 0")
    case True
    with hd_neg [of i] hd_pos [of j] a have j: "j < 0" by (cases "j < 0") auto
    with True a have "digits (nat (- i)) = digits (nat (- j))" by (simp add: FormatInt_def)
    then have "nat (- i) = nat (- j)" by (rule digits_inj)
    with True j show ?thesis by simp
  next
    case False
    with hd_neg [of j] hd_pos [of i] a have j: "\<not> j < 0" by (cases "j < 0") auto
    with False a have "digits (nat i) = digits (nat j)" by (simp add: FormatInt_def)
    then have "nat i = nat j" by (rule digits_inj)
    with False j show ?thesis by simp
  qed
qed

lemma sint_inj64: "sint (a :: 64 word) = sint b \<Longrightarrow> a = b"
  by (rule signed_word_eqI)

lemma of_nat_inj64:
  "i < 2 ^ 64 \<Longrightarrow> j < 2 ^ 64 \<Longrightarrow> (word_of_nat i :: 64 word) = word_of_nat j \<Longrightarrow> i = j"
  by (simp add: word_of_nat_eq_iff take_bit_nat_eq_self)

text \<open>
  C4, as amended. On the stream over filtered resources an empty filtered result is never
  handed to \<open>Send\<close>: every response of the stream, the very first one included, carries
  at least one resource.
\<close>

theorem stream_never_sends_empty:
  "k < length (fst (stream marshal resources recv evs)) \<Longrightarrow>
   Resources (fst (stream marshal resources recv evs) ! k) \<noteq> []"
  using stream_responses [of "fst (stream marshal resources recv evs) ! k" marshal resources recv evs]
  by simp

theorem stream_never_sends_empty_witness:
  "0 < length (fst (stream (\<lambda>m. Inr m) registered (Inr cds_request)
        [Changed 1 (\<lambda>f. filter f [''default/kuard/80'']) None])) \<and>
   Resources (fst (stream (\<lambda>m. Inr m) registered (Inr cds_request)
        [Changed 1 (\<lambda>f. filter f [''default/kuard/80'']) None]) ! 0) \<noteq> []"
proof -
  have h: "0 < length (fst (stream (\<lambda>m. Inr m) registered (Inr cds_request)
        [Changed 1 (\<lambda>f. filter f [''default/kuard/80'']) None]))"
    by (simp add: stream_def registered_def cds_request_def toAny_def toFilter_def)
  from h stream_never_sends_empty [OF h] show ?thesis by blast
qed

text \<open>
  The claim as first stated fails at a cold start: the stream has sent nothing yet, the
  first notification (version 1) finds the cache empty, and no response is sent; the
  stream goes back to waiting.
\<close>

theorem stream_cold_start_counterexample:
  "stream (\<lambda>m. Inr m) registered (Inr cds_request) [Changed 1 (\<lambda>f. filter f []) None] =
     ([], Waiting 1)"
  by (simp add: stream_def registered_def cds_request_def toAny_def toFilter_def)

text \<open>
  C5, as amended. On the stream over filtered resources every response carries the
  constants \<open>0\<close> as version and as nonce. On \<open>stream0\<close> the response number \<open>k\<close> (from 0)
  answers the notification number \<open>k\<close>: its version is the version that notification
  delivered, and its nonce is \<open>k\<close> (as a 64-bit counter), so that the nonces of any two
  of the first \<open>2 ^ 64\<close> responses differ.
\<close>

theorem stream_version_nonce:
  "(\<forall>resp \<in> set (fst (stream marshal resources recv evs)).
      VersionInfo resp = ''0'' \<and> Nonce resp = ''0'') \<and>
   (\<forall>k < length (fst (stream0 url evs0)).
      \<exists>v rs se. evs0 ! k = Changed0 v (Inr rs) se \<and>
        fst (stream0 url evs0) ! k =
          \<lparr>VersionInfo = FormatInt v, Resources = rs, TypeUrl = url,
           Nonce = FormatInt (sint (word_of_nat k :: 64 word))\<rparr>) \<and>
   (\<forall>i j. i < j \<and> j < length (fst (stream0 url evs0)) \<and> j < 2 ^ 64 \<longrightarrow>
      Nonce (fst (stream0 url evs0) ! i) \<noteq> Nonce (fst (stream0 url evs0) ! j))"
proof -
  have A: "\<forall>resp \<in> set (fst (stream marshal resources recv evs)).
      VersionInfo resp = ''0'' \<and> Nonce resp = ''0''"
    using stream_responses by blast
  have B: "\<exists>v rs se. evs0 ! k = Changed0 v (Inr rs) se \<and>
        fst (stream0 url evs0) ! k =
          \<lparr>VersionInfo = FormatInt v, Resources = rs, TypeUrl = url,
           Nonce = FormatInt (sint (word_of_nat k :: 64 word))\<rparr>"
    if "k < length (fst (stream0 url evs0))" for k
    using that stream0_loop_responses [of k url 0 0 evs0] by (simp add: stream0_def)
  have C: "Nonce (fst (stream0 url evs0) ! i) \<noteq> Nonce (fst (stream0 url evs0) ! j)"
    if a: "i < j \<and> j < length (fst (stream0 url evs0)) \<and> j < 2 ^ 64" for i j
  proof -
  from a have i: "i < length (fst (stream0 url evs0))" and j: "j < length (fst (stream0 url evs0))"
    by simp_all
  from stream0_loop_responses [of i url 0 0 evs0] i
  have ni: "Nonce (fst (stream0 url evs0) ! i) = FormatInt (sint (word_of_nat i :: 64 word))"
    by (auto simp: stream0_def)
  from stream0_loop_responses [of j url 0 0 evs0] j
  have nj: "Nonce (fst (stream0 url evs0) ! j) = FormatInt (sint (word_of_nat j :: 64 word))"
    by (auto simp: stream0_def)
  show ?thesis
  proof
    assume "Nonce (fst (stream0 url evs0) ! i) = Nonce (fst (stream0 url evs0) ! j)"
    with ni nj have "sint (word_of_nat i :: 64 word) = sint (word_of_nat j :: 64 word)"
      by (auto dest: FormatInt_inj)
    then have "(word_of_nat i :: 64 word) = word_of_nat j" by (rule sint_inj64)
    with a have "i = j" by (intro of_nat_inj64) simp_all
    with a show False by simp
  qed
  qed
  from A B C show ?thesis by blast
qed

theorem stream_version_nonce_witness:
  "VersionInfo (hd (fst (stream (\<lambda>m. Inr m) registered (Inr cds_request)
        [Changed 1 (\<lambda>f. filter f [''default/kuard/80'']) None]))) = ''0'' \<and>
   Nonce (fst (stream0 clusterType [Changed0 1 (Inr []) None, Changed0 2 (Inr []) None]) ! 0) \<noteq>
   Nonce (fst (stream0 clusterType [Changed0 1 (Inr []) None, Changed0 2 (Inr []) None]) ! 1)"
proof -
  let ?s = "fst (stream (\<lambda>m. Inr m) registered (Inr cds_request)
        [Changed 1 (\<lambda>f. filter f [''default/kuard/80'']) None])"
  let ?evs = "[Changed0 1 (Inr []) None, Changed0 2 (Inr []) None]"
  let ?t = "fst (stream0 clusterType ?evs)"
  note w = stream_version_nonce [of "\<lambda>m. Inr m" registered "Inr cds_request"
      "[Changed 1 (\<lambda>f. filter f [''default/kuard/80'']) None]" clusterType ?evs]
  have s: "hd ?s \<in> set ?s"
    by (simp add: stream_def registered_def cds_request_def toAny_def toFilter_def)
  have len: "(0::nat) < 1 \<and> 1 < length ?t \<and> (1::nat) < 2 ^ 64"
    by (simp add: stream0_def fetch_def)
  from w s have a: "VersionInfo (hd ?s) = ''0''" by blast
  from w len have b: "Nonce (?t ! 0) \<noteq> Nonce (?t ! 1)" by blast
  from a b show ?thesis by blast
qed

text \<open>
  The claim as first stated fails on the stream over filtered resources: two responses
  in a row with non-empty resources carry the same version and the same nonce.
\<close>

theorem stream_version_nonce_counterexample:
  "fst (stream (\<lambda>m. Inr m) registered (Inr cds_request)
        [Changed 1 (\<lambda>f. filter f [''default/kuard/80'']) None,
         Changed 2 (\<lambda>f. filter f [''default/kuard/80'', ''default/httpbin/80'']) None]) =
     [\<lparr>VersionInfo = ''0'',
       Resources = [\<lparr>AnyTypeUrl = clusterType, Value = ''default/kuard/80''\<rparr>],
       TypeUrl = clusterType, Nonce = ''0''\<rparr>,
      \<lparr>VersionInfo = ''0'',
       Resources = [\<lparr>AnyTypeUrl = clusterType, Value = ''default/kuard/80''\<rparr>,
                    \<lparr>AnyTypeUrl = clusterType, Value = ''default/httpbin/80''\<rparr>],
       TypeUrl = clusterType, Nonce = ''0''\<rparr>]"
  by (simp add: stream_def registered_def cds_request_def toAny_def toFilter_def)

subsection \<open>The DAG: the keys of the virtual hosts\<close>

lemma dom_vhost: "dom (vhost h p f vhs) = insert (h, p) (dom vhs)"
  by (simp add: vhost_def Let_def)

lemma foldl_dom:
  assumes "\<And>vhs x. dom (step vhs x) = dom vhs \<union> K x"
  shows "dom (foldl step vhs xs) = dom vhs \<union> (\<Union>x\<in>set xs. K x)"
  by (induction xs arbitrary: vhs) (auto simp: assms)

lemma foldl_inv:
  assumes "\<And>s x. P s \<Longrightarrow> P (step s x)" and "P s"
  shows "P (foldl step s xs)"
  using assms(2) by (induction xs arbitrary: s) (auto intro: assms(1))

lemma dom_ingress_default:
  "dom (ingress_default l d ing vhs) =
   dom vhs \<union> (if SpecBackend ing \<noteq> None \<and> httpAllowed l ing then {(''*'', 80)} else {})"
  by (auto simp: ingress_default_def Let_def dom_vhost split: option.splits)

lemma dom_ingress_tls:
  "dom (ingress_tls d ing vhs) =
   dom vhs \<union> (\<Union>tls\<in>set (SpecTLS ing).
      case dag_secrets d (SecretName tls, Namespace ing) of
        None \<Rightarrow> {}
      | Some sec \<Rightarrow> (\<Union>h\<in>set (Hosts tls). {(h, 443)}))"
  unfolding ingress_tls_def
proof (rule foldl_dom)
  fix vhs tls
  show "dom (case dag_secrets d (SecretName tls, Namespace ing) of
               None \<Rightarrow> vhs
             | Some sec \<Rightarrow> foldl (\<lambda>vhs h. vhost h 443 (addSecret_vhost sec) vhs) vhs (Hosts tls)) =
        dom vhs \<union> (case dag_secrets d (SecretName tls, Namespace ing) of
                     None \<Rightarrow> {}
                   | Some sec \<Rightarrow> (\<Union>h\<in>set (Hosts tls). {(h, 443)}))"
  proof (cases "dag_secrets d (SecretName tls, Namespace ing)")
    case None
    then show ?thesis by simp
  next
    case (Some sec)
    have "dom (foldl (\<lambda>vhs h. vhost h 443 (addSecret_vhost sec) vhs) vhs (Hosts tls)) =
          dom vhs \<union> (\<Union>h\<in>set (Hosts tls). {(h, 443)})"
      by (rule foldl_dom) (simp add: dom_vhost)
    with Some show ?thesis by simp
  qed
qed

lemma dom_ingress_path:
  "dom (ingress_path l d ing h vhs p) =
   dom vhs \<union> (if httpAllowed l ing then {(h, 80)} else {})"
proof -
  define r where "r = backend_route l d ing (if Path p = [] then ''/'' else Path p) (Backend p)"
  define v1 where "v1 = (if httpAllowed l ing then vhost h 80 (setRoute r) vhs else vhs)"
  have d1: "dom v1 = dom vhs \<union> (if httpAllowed l ing then {(h, 80)} else {})"
    by (simp add: v1_def dom_vhost)
  have e: "ingress_path l d ing h vhs p =
      (if v1 (h, 443) \<noteq> None \<and> h \<noteq> ''*'' then vhost h 443 (setRoute r) v1 else v1)"
    unfolding ingress_path_def Let_def v1_def r_def by (rule refl)
  show ?thesis
  proof (cases "v1 (h, 443) \<noteq> None \<and> h \<noteq> ''*''")
    case True
    then have "(h, 443) \<in> dom v1" by (simp add: domIff)
    then have "insert (h, 443) (dom v1) = dom v1" by (rule insert_absorb)
    moreover from True e have "dom (ingress_path l d ing h vhs p) = insert (h, 443) (dom v1)"
      by (simp add: dom_vhost)
    ultimately show ?thesis using d1 by simp
  next
    case False
    then have "\<not> (v1 (h, 443) \<noteq> None \<and> h \<noteq> ''*'')" .
    then have "ingress_path l d ing h vhs p = v1" by (simp only: e if_False)
    with d1 show ?thesis by simp
  qed
qed

lemma dom_ingress_rules:
  "ingress_rules l d ing rules vhs = Inr vhs' \<Longrightarrow>
   dom vhs' = dom vhs \<union> (\<Union>rule\<in>set rules.
      case HTTP rule of
        None \<Rightarrow> {}
      | Some paths \<Rightarrow> (\<Union>p\<in>set paths. if httpAllowed l ing then {(rule_host rule, 80)} else {}))"
proof (induction rules arbitrary: vhs)
  case Nil
  then show ?case by simp
next
  case (Cons rule rules)
  from Cons.prems obtain paths where h: "HTTP rule = Some paths"
    by (cases "HTTP rule") simp_all
  let ?v = "foldl (ingress_path l d ing (rule_host rule)) vhs paths"
  have v: "dom ?v = dom vhs \<union>
      (\<Union>p\<in>set paths. if httpAllowed l ing then {(rule_host rule, 80)} else {})"
    by (rule foldl_dom) (rule dom_ingress_path)
  from Cons.prems h have "ingress_rules l d ing rules ?v = Inr vhs'" by simp
  from Cons.IH [OF this] v h show ?case by (simp add: Un_assoc)
qed

lemma isl_ingress_rules:
  "isl (ingress_rules l d ing rules vhs) \<longleftrightarrow> (\<exists>rule\<in>set rules. HTTP rule = None)"
  by (induction rules arbitrary: vhs) (auto split: option.splits)

lemma dom_ingress_step:
  "\<exists>K. \<forall>vhs vhs'. ingress_step l d ing vhs = Inr vhs' \<longrightarrow> dom vhs' = dom vhs \<union> K"
proof -
  let ?K1 = "if SpecBackend ing \<noteq> None \<and> httpAllowed l ing then {(''*'', 80 :: int)} else {}"
  let ?K2 = "\<Union>tls\<in>set (SpecTLS ing).
      case dag_secrets d (SecretName tls, Namespace ing) of
        None \<Rightarrow> {}
      | Some sec \<Rightarrow> (\<Union>h\<in>set (Hosts tls). {(h, 443 :: int)})"
  let ?K3 = "\<Union>rule\<in>set (SpecRules ing).
      case HTTP rule of
        None \<Rightarrow> {}
      | Some paths \<Rightarrow> (\<Union>p\<in>set paths. if httpAllowed l ing then {(rule_host rule, 80 :: int)} else {})"
  have "dom vhs' = dom vhs \<union> (?K1 \<union> ?K2 \<union> ?K3)"
    if "ingress_step l d ing vhs = Inr vhs'" for vhs vhs'
  proof -
    from that have "dom vhs' = dom (ingress_tls d ing (ingress_default l d ing vhs)) \<union> ?K3"
      unfolding ingress_step_def by (rule dom_ingress_rules)
    then show ?thesis
      unfolding dom_ingress_tls dom_ingress_default by (simp only: Un_assoc)
  qed
  then show ?thesis by blast
qed

lemma isl_ingress_step:
  "isl (ingress_step l d ing vhs) \<longleftrightarrow> (\<exists>rule\<in>set (SpecRules ing). HTTP rule = None)"
  by (simp add: ingress_step_def isl_ingress_rules)

lemma dom_ingresses_loop:
  assumes "\<And>ing vhs vhs'. ingress_step l d ing vhs = Inr vhs' \<Longrightarrow> dom vhs' = dom vhs \<union> K ing"
  shows "ingresses_loop l d ings vhs = Inr vhs' \<Longrightarrow> dom vhs' = dom vhs \<union> (\<Union>ing\<in>set ings. K ing)"
proof (induction ings arbitrary: vhs)
  case Nil
  then show ?case by simp
next
  case (Cons ing ings)
  from Cons.prems obtain v where s: "ingress_step l d ing vhs = Inr v"
    by (cases "ingress_step l d ing vhs") simp_all
  with Cons.prems have "ingresses_loop l d ings v = Inr vhs'" by simp
  from Cons.IH [OF this] assms [OF s] show ?case by auto
qed

lemma isl_ingresses_loop:
  "isl (ingresses_loop l d ings vhs) \<longleftrightarrow>
   (\<exists>ing\<in>set ings. \<exists>rule\<in>set (SpecRules ing). HTTP rule = None)"
proof (induction ings arbitrary: vhs)
  case Nil
  then show ?case by simp
next
  case (Cons ing ings)
  show ?case
  proof (cases "ingress_step l d ing vhs")
    case (Inl e)
    with isl_ingress_step [of l d ing vhs] show ?thesis by auto
  next
    case (Inr v)
    with isl_ingress_step [of l d ing vhs] Cons.IH [of v] show ?thesis by auto
  qed
qed

lemma dom_ingressroute_step:
  "\<exists>K. \<forall>vhs. dom (ingressroute_step d vhs ir) = dom vhs \<union> K"
proof (cases "SpecVirtualHost ir")
  case None
  then have "\<forall>vhs. dom (ingressroute_step d vhs ir) = dom vhs \<union> {}"
    by (simp add: ingressroute_step_def)
  then show ?thesis by blast
next
  case (Some vh)
  let ?h = "Fqdn vh"
  let ?K1 = "case TLS vh of
               None \<Rightarrow> {}
             | Some tls \<Rightarrow> (case dag_secrets d (TLSSecretName tls, Namespace ir) of
                              None \<Rightarrow> {} | Some sec \<Rightarrow> {(?h, 443 :: int)})"
  let ?K2 = "\<Union>route\<in>set (SpecRoutes ir). {(?h, 80 :: int)}"
  have "dom (ingressroute_step d vhs ir) = dom vhs \<union> (?K1 \<union> ?K2)" for vhs
  proof -
    let ?v1 = "case TLS vh of
                 None \<Rightarrow> vhs
               | Some tls \<Rightarrow> (case dag_secrets d (TLSSecretName tls, Namespace ir) of
                                None \<Rightarrow> vhs
                              | Some sec \<Rightarrow> vhost ?h 443 (addSecret_vhost sec) vhs)"
    have v1: "dom ?v1 = dom vhs \<union> ?K1"
      by (simp add: dom_vhost split: option.splits)
    have "dom (foldl (\<lambda>vhs route. vhost ?h 80 (setRoute (ingressroute_route d ir route)) vhs)
                 ?v1 (SpecRoutes ir)) = dom ?v1 \<union> ?K2"
      by (rule foldl_dom) (simp add: dom_vhost)
    with v1 Some show ?thesis
      by (simp add: ingressroute_step_def Let_def Un_assoc)
  qed
  then show ?thesis by blast
qed

lemma set_map_filter: "set (List.map_filter m ks) = {y. \<exists>k\<in>set ks. m k = Some y}"
  by (induction ks) (auto simp: List.map_filter_simps split: option.splits)

lemma set_map_filter_range:
  "range_of ks m \<Longrightarrow> set (List.map_filter m ks) = ran m"
  by (auto simp: set_map_filter range_of_def ran_def)

lemma recompute_vhosts_dom:
  "\<exists>KS. \<forall>ro vhs. range_of (ingOrder ro) (dag_ingresses d) \<longrightarrow>
      range_of (irOrder ro) (dag_ingressroutes d) \<longrightarrow>
      recompute_vhosts l ro d = Inr vhs \<longrightarrow> dom vhs = KS"
proof -
  from dom_ingress_step [of l d] obtain K where
    K: "\<And>ing vhs vhs'. ingress_step l d ing vhs = Inr vhs' \<Longrightarrow> dom vhs' = dom vhs \<union> K ing"
    by metis
  from dom_ingressroute_step [of d] obtain K' where
    K': "\<And>ir vhs. dom (ingressroute_step d vhs ir) = dom vhs \<union> K' ir"
    by metis
  let ?KS = "(\<Union>ing\<in>ran (dag_ingresses d). K ing) \<union> (\<Union>ir\<in>ran (dag_ingressroutes d). K' ir)"
  have "dom vhs = ?KS"
    if a: "range_of (ingOrder ro) (dag_ingresses d)"
      and b: "range_of (irOrder ro) (dag_ingressroutes d)"
      and c: "recompute_vhosts l ro d = Inr vhs" for ro vhs
  proof -
    from c obtain v1 where
      v1: "ingresses_loop l d (List.map_filter (dag_ingresses d) (ingOrder ro)) Map.empty = Inr v1"
      and v: "vhs = foldl (ingressroute_step d) v1
                 (List.map_filter (dag_ingressroutes d) (irOrder ro))"
      by (auto simp: recompute_vhosts_def split: sum.splits)
    from dom_ingresses_loop [of l d K, OF K v1]
    have d1: "dom v1 = (\<Union>ing\<in>ran (dag_ingresses d). K ing)"
      by (simp add: set_map_filter_range [OF a])
    have "dom vhs = dom v1 \<union> (\<Union>ir\<in>set (List.map_filter (dag_ingressroutes d) (irOrder ro)). K' ir)"
      unfolding v by (rule foldl_dom) (rule K')
    with d1 show ?thesis by (simp add: set_map_filter_range [OF b])
  qed
  then show ?thesis by blast
qed

lemma recompute_vhosts_isl:
  "range_of (ingOrder ro) (dag_ingresses d) \<Longrightarrow>
   isl (recompute_vhosts l ro d) \<longleftrightarrow>
   (\<exists>ing\<in>ran (dag_ingresses d). \<exists>rule\<in>set (SpecRules ing). HTTP rule = None)"
proof -
  assume a: "range_of (ingOrder ro) (dag_ingresses d)"
  have "isl (recompute_vhosts l ro d) \<longleftrightarrow>
        isl (ingresses_loop l d (List.map_filter (dag_ingresses d) (ingOrder ro)) Map.empty)"
    by (simp add: recompute_vhosts_def split: sum.splits)
  then show ?thesis
    by (simp add: isl_ingresses_loop set_map_filter_range [OF a])
qed

lemma keyed_vhost:
  assumes "keyed vhs" and "\<And>v. host (f v) = host v \<and> VPort (f v) = VPort v"
  shows "keyed (vhost h p f vhs)"
  using assms by (auto simp: keyed_def vhost_def Let_def split: option.splits)

lemma keyed_setRoute: "keyed vhs \<Longrightarrow> keyed (vhost h p (setRoute r) vhs)"
  by (rule keyed_vhost) (simp_all add: setRoute_def)

lemma keyed_addSecret: "keyed vhs \<Longrightarrow> keyed (vhost h p (addSecret_vhost s) vhs)"
  by (rule keyed_vhost) (simp_all add: addSecret_vhost_def)

lemma keyed_ingress_default: "keyed vhs \<Longrightarrow> keyed (ingress_default l d ing vhs)"
  by (auto simp: ingress_default_def Let_def keyed_setRoute split: option.splits)

lemma keyed_ingress_tls: "keyed vhs \<Longrightarrow> keyed (ingress_tls d ing vhs)"
  unfolding ingress_tls_def
proof (rule foldl_inv [where P = keyed])
  fix s :: "hostport \<rightharpoonup> VirtualHost" and tls
  assume k: "keyed s"
  show "keyed (case dag_secrets d (SecretName tls, Namespace ing) of
                 None \<Rightarrow> s
               | Some sec \<Rightarrow> foldl (\<lambda>vhs h. vhost h 443 (addSecret_vhost sec) vhs) s (Hosts tls))"
  proof (cases "dag_secrets d (SecretName tls, Namespace ing)")
    case None
    with k show ?thesis by simp
  next
    case (Some sec)
    have "keyed (foldl (\<lambda>vhs h. vhost h 443 (addSecret_vhost sec) vhs) s (Hosts tls))"
      by (rule foldl_inv [where P = keyed]) (simp_all add: keyed_addSecret k)
    with Some show ?thesis by simp
  qed
qed

lemma keyed_ingress_path: "keyed vhs \<Longrightarrow> keyed (ingress_path l d ing h vhs p)"
  by (simp add: ingress_path_def Let_def keyed_setRoute)

lemma keyed_ingress_rules:
  "keyed vhs \<Longrightarrow> ingress_rules l d ing rules vhs = Inr vhs' \<Longrightarrow> keyed vhs'"
proof (induction rules arbitrary: vhs)
  case Nil
  then show ?case by simp
next
  case (Cons rule rules)
  from Cons.prems(2) obtain paths where h: "HTTP rule = Some paths"
    by (cases "HTTP rule") simp_all
  have "keyed (foldl (ingress_path l d ing (rule_host rule)) vhs paths)"
    by (rule foldl_inv [where P = keyed]) (simp_all add: keyed_ingress_path Cons.prems(1))
  moreover from Cons.prems(2) h
  have "ingress_rules l d ing rules (foldl (ingress_path l d ing (rule_host rule)) vhs paths) =
      Inr vhs'" by simp
  ultimately show ?case by (rule Cons.IH)
qed

lemma keyed_ingress_step:
  "keyed vhs \<Longrightarrow> ingress_step l d ing vhs = Inr vhs' \<Longrightarrow> keyed vhs'"
  unfolding ingress_step_def
  by (rule keyed_ingress_rules [of "ingress_tls d ing (ingress_default l d ing vhs)"])
     (simp_all add: keyed_ingress_tls keyed_ingress_default)

lemma keyed_ingresses_loop:
  "keyed vhs \<Longrightarrow> ingresses_loop l d ings vhs = Inr vhs' \<Longrightarrow> keyed vhs'"
proof (induction ings arbitrary: vhs)
  case Nil
  then show ?case by simp
next
  case (Cons ing ings)
  from Cons.prems(2) obtain v where s: "ingress_step l d ing vhs = Inr v"
    by (cases "ingress_step l d ing vhs") simp_all
  from keyed_ingress_step [OF Cons.prems(1) s] have "keyed v" .
  moreover from Cons.prems(2) s have "ingresses_loop l d ings v = Inr vhs'" by simp
  ultimately show ?case by (rule Cons.IH)
qed

lemma keyed_ingressroute_step: "keyed vhs \<Longrightarrow> keyed (ingressroute_step d vhs ir)"
proof (cases "SpecVirtualHost ir")
  case None
  assume "keyed vhs"
  with None show ?thesis by (simp add: ingressroute_step_def)
next
  case (Some vh)
  assume k: "keyed vhs"
  let ?v1 = "case TLS vh of
               None \<Rightarrow> vhs
             | Some tls \<Rightarrow> (case dag_secrets d (TLSSecretName tls, Namespace ir) of
                              None \<Rightarrow> vhs
                            | Some sec \<Rightarrow> vhost (Fqdn vh) 443 (addSecret_vhost sec) vhs)"
  from k have k1: "keyed ?v1" by (simp add: keyed_addSecret split: option.splits)
  have "keyed (foldl (\<lambda>vhs route. vhost (Fqdn vh) 80
          (setRoute (ingressroute_route d ir route)) vhs) ?v1 (SpecRoutes ir))"
    by (rule foldl_inv [where P = keyed]) (simp_all add: keyed_setRoute k1)
  with Some show ?thesis by (simp add: ingressroute_step_def Let_def)
qed

lemma keyed_recompute_vhosts: "recompute_vhosts l ro d = Inr vhs \<Longrightarrow> keyed vhs"
proof -
  assume "recompute_vhosts l ro d = Inr vhs"
  then obtain v1 where
    v1: "ingresses_loop l d (List.map_filter (dag_ingresses d) (ingOrder ro)) Map.empty = Inr v1"
    and v: "vhs = foldl (ingressroute_step d) v1
               (List.map_filter (dag_ingressroutes d) (irOrder ro))"
    by (auto simp: recompute_vhosts_def split: sum.splits)
  have "keyed Map.empty" by (simp add: keyed_def)
  from keyed_ingresses_loop [OF this v1] have "keyed v1" .
  then show ?thesis unfolding v
    by (intro foldl_inv [where P = keyed]) (simp_all add: keyed_ingressroute_step)
qed

lemma map_filter_keys:
  "keyed vhs \<Longrightarrow> set ks \<subseteq> dom vhs \<Longrightarrow>
   map (\<lambda>v. (host v, VPort v)) (List.map_filter vhs ks) = ks"
  by (induction ks) (auto simp: List.map_filter_simps keyed_def split: option.splits)

lemma recompute_roots:
  assumes "run_of l ro d" and "recompute l ro d = Inr g"
  shows "\<exists>vhs. recompute_vhosts l ro d = Inr vhs \<and>
           map (\<lambda>v. (host v, VPort v)) (roots g) = vhOrder ro \<and>
           distinct (vhOrder ro) \<and> set (vhOrder ro) = dom vhs"
proof -
  from assms(2) obtain vhs where v: "recompute_vhosts l ro d = Inr vhs"
    and g: "g = \<lparr>roots = List.map_filter vhs (vhOrder ro)\<rparr>"
    by (auto simp: recompute_def split: sum.splits)
  from assms(1) v have r: "range_of (vhOrder ro) vhs" by (simp add: run_of_def)
  from keyed_recompute_vhosts [OF v] have k: "keyed vhs" .
  from r have "set (vhOrder ro) \<subseteq> dom vhs" by (simp add: range_of_def)
  from map_filter_keys [OF k this] g r v show ?thesis by (simp add: range_of_def)
qed

text \<open>
  C1, as amended. A rebuild is a function of the cache and of the order in which Go visits
  the maps. For a cache filled by \<open>Insert\<close> and \<open>remove\<close>, two runs of the rebuild, whatever
  their map orders, agree on whether the rebuild panics and on the set of roots as named
  by host and port: each run has exactly one root for each such name. The order of the
  roots is the order of the last map loop.
\<close>

theorem recompute_root_keys:
  "well_keyed d \<Longrightarrow> run_of l ro1 d \<Longrightarrow> run_of l ro2 d \<Longrightarrow>
   (isl (recompute l ro1 d) \<longleftrightarrow> isl (recompute l ro2 d)) \<and>
   (\<forall>g1 g2. recompute l ro1 d = Inr g1 \<and> recompute l ro2 d = Inr g2 \<longrightarrow>
      set (map (\<lambda>v. (host v, VPort v)) (roots g1)) = set (map (\<lambda>v. (host v, VPort v)) (roots g2)) \<and>
      distinct (map (\<lambda>v. (host v, VPort v)) (roots g1)) \<and>
      distinct (map (\<lambda>v. (host v, VPort v)) (roots g2)) \<and>
      map (\<lambda>v. (host v, VPort v)) (roots g1) = vhOrder ro1 \<and>
      map (\<lambda>v. (host v, VPort v)) (roots g2) = vhOrder ro2)"
proof -
  assume r1: "run_of l ro1 d" and r2: "run_of l ro2 d"
  have i: "isl (recompute l ro d) = isl (recompute_vhosts l ro d)" for ro
    by (simp add: recompute_def split: sum.splits)
  from r1 r2 have a: "range_of (ingOrder ro1) (dag_ingresses d)"
    "range_of (ingOrder ro2) (dag_ingresses d)"
    "range_of (irOrder ro1) (dag_ingressroutes d)"
    "range_of (irOrder ro2) (dag_ingressroutes d)"
    by (simp_all add: run_of_def)
  have A: "isl (recompute l ro1 d) \<longleftrightarrow> isl (recompute l ro2 d)"
    unfolding i recompute_vhosts_isl [OF a(1)] recompute_vhosts_isl [OF a(2)] by (rule refl)
  from recompute_vhosts_dom [of d l] obtain KS where
    KS: "\<And>ro vhs. range_of (ingOrder ro) (dag_ingresses d) \<Longrightarrow>
      range_of (irOrder ro) (dag_ingressroutes d) \<Longrightarrow>
      recompute_vhosts l ro d = Inr vhs \<Longrightarrow> dom vhs = KS" by blast
  have B: "set (map (\<lambda>v. (host v, VPort v)) (roots g1)) =
           set (map (\<lambda>v. (host v, VPort v)) (roots g2)) \<and>
      distinct (map (\<lambda>v. (host v, VPort v)) (roots g1)) \<and>
      distinct (map (\<lambda>v. (host v, VPort v)) (roots g2)) \<and>
      map (\<lambda>v. (host v, VPort v)) (roots g1) = vhOrder ro1 \<and>
      map (\<lambda>v. (host v, VPort v)) (roots g2) = vhOrder ro2"
    if g: "recompute l ro1 d = Inr g1 \<and> recompute l ro2 d = Inr g2" for g1 g2
  proof -
    from recompute_roots [OF r1] g obtain v1 where
      v1: "recompute_vhosts l ro1 d = Inr v1"
      "map (\<lambda>v. (host v, VPort v)) (roots g1) = vhOrder ro1"
      "distinct (vhOrder ro1)" "set (vhOrder ro1) = dom v1" by blast
    from recompute_roots [OF r2] g obtain v2 where
      v2: "recompute_vhosts l ro2 d = Inr v2"
      "map (\<lambda>v. (host v, VPort v)) (roots g2) = vhOrder ro2"
      "distinct (vhOrder ro2)" "set (vhOrder ro2) = dom v2" by blast
    from KS [OF a(1) a(3) v1(1)] KS [OF a(2) a(4) v2(1)] have "dom v1 = dom v2" by simp
    with v1 v2 show ?thesis by simp
  qed
  from A B show ?thesis by blast
qed

lemmas dag_eval =
  recompute_def recompute_vhosts_def run_of_def range_of_def well_keyed_def
  DAG_zero_def Insert_def List.map_filter_def
  ingress_step_def ingress_default_def ingress_tls_def ingress_path_def backend_route_def
  vhost_def setRoute_def addSecret_vhost_def addService_route_def rule_host_def
  example_lib_def Let_def

lemma dag_c_runs:
  "well_keyed dag_c \<and> run_of example_lib order_c1 dag_c \<and> run_of example_lib order_c2 dag_c"
  by (auto simp: dag_eval dag_c_def ing_c_def order_c1_def order_c2_def)

lemma dag_c_roots:
  "(case recompute example_lib order_c1 dag_c of
      Inl _ \<Rightarrow> False
    | Inr g \<Rightarrow> map (\<lambda>v. (host v, VPort v)) (roots g) = [(''*'', 80), (''kuard.example.com'', 80)]) \<and>
   (case recompute example_lib order_c2 dag_c of
      Inl _ \<Rightarrow> False
    | Inr g \<Rightarrow> map (\<lambda>v. (host v, VPort v)) (roots g) = [(''kuard.example.com'', 80), (''*'', 80)])"
  by (simp add: dag_eval dag_c_def ing_c_def order_c1_def order_c2_def)

lemma dag_ab_runs:
  "well_keyed dag_ab \<and> run_of example_lib order_ab dag_ab \<and> run_of example_lib order_ba dag_ab"
  by (auto simp: dag_eval dag_ab_def ing_a_def ing_b_def order_ab_def order_ba_def)

lemma dag_ab_roots:
  "(case recompute example_lib order_ab dag_ab of
      Inl _ \<Rightarrow> False
    | Inr g \<Rightarrow> map (\<lambda>v. map_option object (routes v ''/'')) (roots g) = [Some (OfIngress ing_b)]) \<and>
   (case recompute example_lib order_ba dag_ab of
      Inl _ \<Rightarrow> False
    | Inr g \<Rightarrow> map (\<lambda>v. map_option object (routes v ''/'')) (roots g) = [Some (OfIngress ing_a)])"
  by (simp add: dag_eval dag_ab_def ing_a_def ing_b_def order_ab_def order_ba_def)

theorem recompute_root_keys_witness:
  "well_keyed dag_c \<and> run_of example_lib order_c1 dag_c \<and> run_of example_lib order_c2 dag_c \<and>
   \<not> isl (recompute example_lib order_c1 dag_c) \<and>
   \<not> isl (recompute example_lib order_c2 dag_c) \<and>
   set (map (\<lambda>v. (host v, VPort v)) (roots (projr (recompute example_lib order_c1 dag_c)))) =
   set (map (\<lambda>v. (host v, VPort v)) (roots (projr (recompute example_lib order_c2 dag_c))))"
proof -
  from dag_c_runs have w: "well_keyed dag_c" and r1: "run_of example_lib order_c1 dag_c"
    and r2: "run_of example_lib order_c2 dag_c" by simp_all
  from dag_c_roots obtain g1 g2 where
    g: "recompute example_lib order_c1 dag_c = Inr g1" "recompute example_lib order_c2 dag_c = Inr g2"
    by (auto split: sum.splits)
  from recompute_root_keys [OF w r1 r2] g
  have "set (map (\<lambda>v. (host v, VPort v)) (roots g1)) = set (map (\<lambda>v. (host v, VPort v)) (roots g2))"
    by blast
  with w r1 r2 g show ?thesis by simp
qed

text \<open>
  The claim as first stated fails. With the Ingresses \<open>a\<close> and \<open>b\<close> in the cache, both with
  a default backend, the route \<open>/\<close> of the virtual host \<open>*\<close> belongs to the Ingress that the
  loop visits last: two runs on the same cache give two different graphs. With the
  Ingress \<open>c\<close> in the cache, the two roots come in the order of the last map loop.
\<close>

theorem recompute_order_counterexample:
  "well_keyed dag_ab \<and> run_of example_lib order_ab dag_ab \<and> run_of example_lib order_ba dag_ab \<and>
   recompute example_lib order_ab dag_ab \<noteq> recompute example_lib order_ba dag_ab \<and>
   well_keyed dag_c \<and> run_of example_lib order_c1 dag_c \<and> run_of example_lib order_c2 dag_c \<and>
   map (\<lambda>v. (host v, VPort v)) (roots (projr (recompute example_lib order_c1 dag_c))) =
     [(''*'', 80), (''kuard.example.com'', 80)] \<and>
   map (\<lambda>v. (host v, VPort v)) (roots (projr (recompute example_lib order_c2 dag_c))) =
     [(''kuard.example.com'', 80), (''*'', 80)]"
proof -
  have ne: "ing_a \<noteq> ing_b"
  proof
    assume "ing_a = ing_b"
    then have "Name ing_a = Name ing_b" by simp
    then show False by (simp add: ing_a_def ing_b_def)
  qed
  have "recompute example_lib order_ab dag_ab \<noteq> recompute example_lib order_ba dag_ab"
  proof
    assume e: "recompute example_lib order_ab dag_ab = recompute example_lib order_ba dag_ab"
    from dag_ab_roots obtain g where
      "recompute example_lib order_ab dag_ab = Inr g"
      "map (\<lambda>v. map_option object (routes v ''/'')) (roots g) = [Some (OfIngress ing_b)]"
      by (auto split: sum.splits)
    moreover from dag_ab_roots obtain g' where
      "recompute example_lib order_ba dag_ab = Inr g'"
      "map (\<lambda>v. map_option object (routes v ''/'')) (roots g') = [Some (OfIngress ing_a)]"
      by (auto split: sum.splits)
    ultimately have "ing_b = ing_a" using e by simp
    with ne show False by simp
  qed
  moreover from dag_c_roots have
    "map (\<lambda>v. (host v, VPort v)) (roots (projr (recompute example_lib order_c1 dag_c))) =
       [(''*'', 80), (''kuard.example.com'', 80)]"
    "map (\<lambda>v. (host v, VPort v)) (roots (projr (recompute example_lib order_c2 dag_c))) =
       [(''kuard.example.com'', 80), (''*'', 80)]"
    by (auto split: sum.splits)
  ultimately show ?thesis using dag_ab_runs dag_c_runs by simp
qed

subsection \<open>The DAG: insert and remove\<close>

text \<open>
  C8, as amended. For every cache and every object of a watched kind whose key (kind,
  name and namespace) is not in the cache, inserting the object and then removing it
  gives back the cache, and with it the same rebuild, whatever the order of the map loops.
\<close>

theorem Remove_Insert:
  "watched obj \<Longrightarrow> \<not> present d obj \<Longrightarrow>
   Remove (Insert d obj) obj = d \<and>
   recompute l ro (Remove (Insert d obj) obj) = recompute l ro d"
proof -
  assume w: "watched obj" and p: "\<not> present d obj"
  have "Remove (Insert d obj) obj = d"
  proof (cases obj)
    case (DSecret s)
    with p have "dag_secrets d (Name s, Namespace s) = None" by simp
    then have "((dag_secrets d)((Name s, Namespace s) \<mapsto> s))((Name s, Namespace s) := None) =
        dag_secrets d" by (simp add: fun_upd_idem)
    with DSecret show ?thesis by (simp add: Insert_def remove_def)
  next
    case (DService s)
    with p have "dag_services d (Name s, Namespace s) = None" by simp
    then have "((dag_services d)((Name s, Namespace s) \<mapsto> s))((Name s, Namespace s) := None) =
        dag_services d" by (simp add: fun_upd_idem)
    with DService show ?thesis by (simp add: Insert_def remove_def)
  next
    case (DIngress i)
    with p have "dag_ingresses d (Name i, Namespace i) = None" by simp
    then have "((dag_ingresses d)((Name i, Namespace i) \<mapsto> i))((Name i, Namespace i) := None) =
        dag_ingresses d" by (simp add: fun_upd_idem)
    with DIngress show ?thesis by (simp add: Insert_def remove_def)
  next
    case (DIngressRoute ir)
    with p have "dag_ingressroutes d (Name ir, Namespace ir) = None" by simp
    then have "((dag_ingressroutes d)((Name ir, Namespace ir) \<mapsto> ir))
        ((Name ir, Namespace ir) := None) = dag_ingressroutes d" by (simp add: fun_upd_idem)
    with DIngressRoute show ?thesis by (simp add: Insert_def remove_def)
  next
    case (DeletedFinalStateUnknown x)
    with w show ?thesis by simp
  next
    case (DUninteresting x)
    with w show ?thesis by simp
  qed
  then show ?thesis by simp
qed

theorem Remove_Insert_witness:
  "watched (DSecret sec1) \<and> \<not> present DAG_zero (DSecret sec1) \<and>
   Remove (Insert DAG_zero (DSecret sec1)) (DSecret sec1) = DAG_zero \<and>
   recompute example_lib order_tls (Remove (Insert DAG_zero (DSecret sec1)) (DSecret sec1)) =
     recompute example_lib order_tls DAG_zero"
proof -
  have w: "watched (DSecret sec1)" by simp
  have p: "\<not> present DAG_zero (DSecret sec1)" by (simp add: DAG_zero_def)
  from w p Remove_Insert [OF w p, of example_lib order_tls] show ?thesis by blast
qed

text \<open>
  The claim as first stated fails when the key is taken: the cache holds the secret of an
  Ingress; a renewed secret of the same name is inserted, which overwrites the first, and
  removed again. The rebuild had the virtual host of the Ingress on port 443 before, and
  has no root at all afterwards.
\<close>

theorem Remove_Insert_counterexample:
  "watched (DSecret sec2) \<and>
   (case recompute example_lib order_tls dag_tls of
      Inl _ \<Rightarrow> False
    | Inr g \<Rightarrow> map (\<lambda>v. (host v, VPort v)) (roots g) = [(''kuard.example.com'', 443)]) \<and>
   recompute example_lib order_tls (Remove (Insert dag_tls (DSecret sec2)) (DSecret sec2)) =
     Inr \<lparr>roots = []\<rparr>"
  by (simp add: recompute_def recompute_vhosts_def order_tls_def dag_tls_def DAG_zero_def
      Insert_def remove_def sec1_def sec2_def ing_tls_def List.map_filter_def
      ingress_step_def ingress_default_def ingress_tls_def vhost_def addSecret_vhost_def)

subsection \<open>The order of routes\<close>




subsection \<open>hashname\<close>















end
